theory Spec2Isabelle
  imports Complex_Main "HOL-Library.Word"
begin

unbundle bit_operations_syntax

section \<open>Data model\<close>

text \<open>
  The filter of \<^verbatim>\<open>src/bloom_filter.h\<close>: a vector of 64-bit blocks and two
  \<^verbatim>\<open>size_t\<close> fields. \<^verbatim>\<open>size_t\<close> and \<^verbatim>\<open>uint64_t\<close> are both taken as 64-bit
  unsigned integers (an LP64 platform), so every \<open>+\<close>, \<open>*\<close> below wraps modulo \<open>2 ^ 64\<close>
  as the C++ does. An item is the byte range \<^verbatim>\<open>(data, len)\<close>. The members
  \<^verbatim>\<open>bits_\<close>, \<^verbatim>\<open>num_bits_\<close>, \<^verbatim>\<open>num_hashes_\<close> are written with a prime for the
  trailing underscore, which a name cannot end with here.
\<close>

type_synonym u64 = "64 word"
type_synonym bytes = "8 word list"

text \<open>A loop counter below its bound can be incremented without wrapping.\<close>

lemma u64_succ: "unat (i + 1) = Suc (unat i)" if "i < k" for i k :: u64
proof -
  from that have "unat i < unat k"
    by (simp add: word_less_nat_alt)
  moreover have "unat k < 2 ^ LENGTH(64)"
    by (rule unsigned_less)
  ultimately have "unat i + unat (1 :: u64) < 2 ^ LENGTH(64)"
    by simp
  then show ?thesis
    by (simp add: unat_add_lem [THEN iffD1])
qed

lemma u64_counter_step: "unat k - unat (i + 1) < unat k - unat i" if "i < k" for i k :: u64
  using that u64_succ [OF that] by (simp add: word_less_nat_alt)

record BloomFilter =
  bits' :: "u64 list"
  num_bits' :: u64
  num_hashes' :: u64

text \<open>
  The exceptions of the C++ as values. \<open>undefined_behaviour\<close> stands for what the C++
  leaves undefined and the model makes explicit: \<^verbatim>\<open>bits_[block_index]\<close> with
  \<^verbatim>\<open>block_index >= bits_.size()\<close>, and the conversion to \<^verbatim>\<open>size_t\<close> of a
  \<^verbatim>\<open>double\<close> that is not in its range.
\<close>

datatype error = invalid_argument | runtime_error | overflow_error | undefined_behaviour

text \<open>
  \<^verbatim>\<open>XXH64(data, len, seed)\<close> comes from the third-party header \<^verbatim>\<open>xxhash.h\<close>; it is
  a parameter \<open>XXH64\<close> of every operation that hashes, and nothing is assumed about it.
\<close>

type_synonym hash_fn = "bytes \<Rightarrow> u64 \<Rightarrow> u64"

definition SEED1 :: u64 where
  "SEED1 = 0x5F0D42B1A956789F"

definition SEED2 :: u64 where
  "SEED2 = 0x9B1A75C3E0D6F2A7"

subsection \<open>Doubles, as far as the constructors compare and convert them\<close>

text \<open>
  A \<^verbatim>\<open>double\<close> is a finite value, an infinity or a NaN. The comparisons follow
  IEEE 754: every ordered comparison with a NaN is false. The arithmetic of
  \<^verbatim>\<open>calculate_optimal_params\<close> (\<^verbatim>\<open>std::log\<close>, \<open>*\<close>, \<open>/\<close> with their rounding) is
  the platform's: the two floating-point expressions of that function are parameters,
  which \<open>m_candidate_of\<close> and \<open>k_candidate_of\<close> below build from a floating-point unit.
\<close>

datatype double = Finite real | PosInf | NegInf | NaN

fun double_le :: "double \<Rightarrow> double \<Rightarrow> bool" where
  "double_le NaN _ = False"
| "double_le _ NaN = False"
| "double_le NegInf _ = True"
| "double_le _ PosInf = True"
| "double_le (Finite a) (Finite b) = (a \<le> b)"
| "double_le PosInf _ = False"
| "double_le _ NegInf = False"

definition double_ge :: "double \<Rightarrow> double \<Rightarrow> bool" where
  "double_ge a b = double_le b a"

fun double_gt :: "double \<Rightarrow> double \<Rightarrow> bool" where
  "double_gt NaN _ = False"
| "double_gt _ NaN = False"
| "double_gt (Finite a) (Finite b) = (a > b)"
| "double_gt PosInf PosInf = False"
| "double_gt PosInf _ = True"
| "double_gt _ PosInf = False"
| "double_gt NegInf _ = False"
| "double_gt _ NegInf = True"

text \<open>\<^verbatim>\<open>std::ceil\<close>: exact on finite values, the identity on infinities and NaN.\<close>

fun double_ceil :: "double \<Rightarrow> double" where
  "double_ceil (Finite r) = Finite (of_int \<lceil>r\<rceil>)"
| "double_ceil d = d"

text \<open>
  \<^verbatim>\<open>static_cast<size_t>(d)\<close> truncates towards zero and is defined only when the
  truncated value fits \<^verbatim>\<open>size_t\<close>; \<open>None\<close> is the undefined conversion.
\<close>

fun to_size_t :: "double \<Rightarrow> u64 option" where
  "to_size_t (Finite r) =
     (if -1 < r \<and> r < 2 ^ 64 then Some (word_of_int (if r < 0 then 0 else \<lfloor>r\<rfloor>)) else None)"
| "to_size_t _ = None"

section \<open>Construction\<close>

text \<open>
  \<^verbatim>\<open>initialize_bits\<close>: \<^verbatim>\<open>bits_.assign((num_bits_ + 63) / 64, 0ULL)\<close>, the sum in
  \<^verbatim>\<open>size_t\<close>. Memory is taken as unbounded: the \<^verbatim>\<open>std::bad_alloc\<close> branch is not
  modelled.
\<close>

definition initialize_bits :: "BloomFilter \<Rightarrow> BloomFilter" where
  "initialize_bits f =
     (let num_blocks = (num_bits' f + 63) div 64
      in f\<lparr>bits' := replicate (unat num_blocks) 0\<rparr>)"

text \<open>
  \<^verbatim>\<open>calculate_optimal_params\<close>. \<open>m_candidate_fp n p\<close> is the double the platform
  computes for \<^verbatim>\<open>-(n_double * log_p) / log_2_sq\<close> and \<open>k_candidate_fp m n\<close> the one for
  \<^verbatim>\<open>(static_cast<double>(num_bits_) / n_double) * log_2\<close>.
  \<^verbatim>\<open>static_cast<double>(numeric_limits<size_t>::max())\<close> rounds to \<open>2 ^ 64\<close>.
\<close>

definition calculate_optimal_params ::
  "(u64 \<Rightarrow> double \<Rightarrow> double) \<Rightarrow> (u64 \<Rightarrow> u64 \<Rightarrow> double) \<Rightarrow> u64 \<Rightarrow> double \<Rightarrow> error + (u64 \<times> u64)"
where
  "calculate_optimal_params m_candidate_fp k_candidate_fp n p =
     (let m_candidate = m_candidate_fp n p in
      if double_gt m_candidate (Finite (2 ^ 64)) then Inl overflow_error
      else case to_size_t (double_ceil m_candidate) of
        None \<Rightarrow> Inl undefined_behaviour
      | Some c \<Rightarrow>
          let num_bits = max 1 c;
              k_candidate = k_candidate_fp num_bits n
          in case to_size_t (double_ceil k_candidate) of
               None \<Rightarrow> Inl undefined_behaviour
             | Some h \<Rightarrow>
                 let num_hashes = max 1 h;
                     num_hashes = min num_hashes 32
                 in Inr (num_bits, num_hashes))"

subsection \<open>The floating-point expressions of \<^verbatim>\<open>calculate_optimal_params\<close>\<close>


text \<open>
  \<^verbatim>\<open>static_cast<double>(n)\<close> for a \<^verbatim>\<open>size_t\<close>: the value rounded to 53 significant
  bits, ties to even (the default rounding mode).
\<close>

fun bit_length :: "nat \<Rightarrow> nat" where
  "bit_length n = (if n = 0 then 0 else Suc (bit_length (n div 2)))"

declare bit_length.simps [simp del]

definition round_nat_to_double :: "nat \<Rightarrow> nat" where
  "round_nat_to_double n =
     (let e = bit_length n - 53;
          q = n div 2 ^ e;
          r = n mod 2 ^ e
      in if 2 * r > 2 ^ e \<or> (2 * r = 2 ^ e \<and> odd q) then (q + 1) * 2 ^ e else q * 2 ^ e)"

definition size_t_to_double :: "u64 \<Rightarrow> double" where
  "size_t_to_double n = Finite (real (round_nat_to_double (unat n)))"




text \<open>\<^verbatim>\<open>BloomFilter(size_t estimated_num_items, double false_positive_rate)\<close>\<close>

definition BloomFilter_optimal ::
  "(u64 \<Rightarrow> double \<Rightarrow> double) \<Rightarrow> (u64 \<Rightarrow> u64 \<Rightarrow> double) \<Rightarrow> u64 \<Rightarrow> double \<Rightarrow> error + BloomFilter"
where
  "BloomFilter_optimal m_candidate_fp k_candidate_fp estimated_num_items false_positive_rate =
     (if estimated_num_items = 0 then Inl invalid_argument
      else if double_le false_positive_rate (Finite 0) \<or> double_ge false_positive_rate (Finite 1)
      then Inl invalid_argument
      else case calculate_optimal_params m_candidate_fp k_candidate_fp
                  estimated_num_items false_positive_rate of
        Inl e \<Rightarrow> Inl e
      | Inr (m, k) \<Rightarrow> Inr (initialize_bits \<lparr>bits' = [], num_bits' = m, num_hashes' = k\<rparr>))"

text \<open>\<^verbatim>\<open>BloomFilter(size_t num_bits, size_t num_hashes)\<close>\<close>

definition BloomFilter_explicit :: "u64 \<Rightarrow> u64 \<Rightarrow> error + BloomFilter" where
  "BloomFilter_explicit num_bits num_hashes =
     (if num_bits = 0 then Inl invalid_argument
      else if num_hashes = 0 then Inl invalid_argument
      else Inr (initialize_bits \<lparr>bits' = [], num_bits' = num_bits, num_hashes' = num_hashes\<rparr>))"

text \<open>
  \<^verbatim>\<open>BloomFilter(size_t num_bits, size_t num_hashes, const vector<uint64_t>& bits_data)\<close>.
  \<^verbatim>\<open>bits_.size()\<close> is the length of the list (a vector's size fits \<^verbatim>\<open>size_t\<close>).
\<close>

definition BloomFilter_restore :: "u64 \<Rightarrow> u64 \<Rightarrow> u64 list \<Rightarrow> error + BloomFilter" where
  "BloomFilter_restore num_bits num_hashes bits_data =
     (if num_bits = 0 \<or> num_hashes = 0 then Inl invalid_argument
      else let expected_blocks = (num_bits + 63) div 64
           in if length bits_data \<noteq> unat expected_blocks then Inl runtime_error
              else Inr \<lparr>bits' = bits_data, num_bits' = num_bits, num_hashes' = num_hashes\<rparr>)"




section \<open>add and might\_contain\<close>

text \<open>
  The loop of \<^verbatim>\<open>BloomFilter::add(const char*, size_t)\<close>, from counter \<open>i\<close> on. The
  write \<^verbatim>\<open>bits_[block_index] |= (1ULL << offset_in_block)\<close> is undefined when
  \<^verbatim>\<open>block_index\<close> is not below \<^verbatim>\<open>bits_.size()\<close>.
\<close>

function add_loop :: "u64 \<Rightarrow> u64 \<Rightarrow> u64 \<Rightarrow> BloomFilter \<Rightarrow> error + BloomFilter" where
  "add_loop hash1 hash2 i f =
     (if i < num_hashes' f then
        let combined_hash = hash1 + i * hash2;
            bit_index = combined_hash mod num_bits' f;
            block_index = bit_index div 64;
            offset_in_block = bit_index mod 64
        in if unat block_index < length (bits' f)
           then add_loop hash1 hash2 (i + 1)
                  (f\<lparr>bits' := (bits' f)[unat block_index :=
                       bits' f ! unat block_index OR push_bit (unat offset_in_block) 1]\<rparr>)
           else Inl undefined_behaviour
      else Inr f)"
  by pat_completeness auto
termination
  by (relation "measure (\<lambda>(hash1, hash2, i, f). unat (num_hashes' f) - unat i)")
    (simp_all add: u64_counter_step)

declare add_loop.simps [simp del]

definition add :: "hash_fn \<Rightarrow> BloomFilter \<Rightarrow> bytes \<Rightarrow> error + BloomFilter" where
  "add XXH64 f data =
     (if num_bits' f = 0 then Inr f
      else let hash1 = XXH64 data SEED1;
               hash2 = XXH64 data SEED2
           in add_loop hash1 hash2 0 f)"

text \<open>
  The loop of \<^verbatim>\<open>BloomFilter::might_contain(const char*, size_t)\<close>, from counter
  \<open>i\<close> on; the read \<^verbatim>\<open>bits_[block_index]\<close> is undefined out of range.
\<close>

function might_contain_loop :: "u64 \<Rightarrow> u64 \<Rightarrow> u64 \<Rightarrow> BloomFilter \<Rightarrow> error + bool" where
  "might_contain_loop hash1 hash2 i f =
     (if i < num_hashes' f then
        let combined_hash = hash1 + i * hash2;
            bit_index = combined_hash mod num_bits' f;
            block_index = bit_index div 64;
            offset_in_block = bit_index mod 64
        in if unat block_index < length (bits' f)
           then if drop_bit (unat offset_in_block) (bits' f ! unat block_index) AND 1 = 0
                then Inr False
                else might_contain_loop hash1 hash2 (i + 1) f
           else Inl undefined_behaviour
      else Inr True)"
  by pat_completeness auto
termination
  by (relation "measure (\<lambda>(hash1, hash2, i, f). unat (num_hashes' f) - unat i)")
    (simp_all add: u64_counter_step)

declare might_contain_loop.simps [simp del]

definition might_contain :: "hash_fn \<Rightarrow> BloomFilter \<Rightarrow> bytes \<Rightarrow> error + bool" where
  "might_contain XXH64 f data =
     (if num_bits' f = 0 then Inr False
      else let hash1 = XXH64 data SEED1;
               hash2 = XXH64 data SEED2
           in might_contain_loop hash1 hash2 0 f)"

text \<open>A sequence of \<^verbatim>\<open>add\<close> calls on one filter; the first failing call ends it.\<close>

fun adds :: "hash_fn \<Rightarrow> BloomFilter \<Rightarrow> bytes list \<Rightarrow> error + BloomFilter" where
  "adds XXH64 f [] = Inr f"
| "adds XXH64 f (x # xs) =
     (case add XXH64 f x of Inl e \<Rightarrow> Inl e | Inr f' \<Rightarrow> adds XXH64 f' xs)"

subsection \<open>The second implementation\<close>

text \<open>
  \<^verbatim>\<open>BloomFilter::add(const char*, size_t)\<close> of
  \<^verbatim>\<open>src/src/bloomfilter/bloom_filter.cpp\<close>, on the same three members. It has no early
  return for \<^verbatim>\<open>num_bits_ == 0\<close>, where \<^verbatim>\<open>current_probe_hash % num_bits_\<close> is undefined.
\<close>

function add_enhanced_loop :: "u64 \<Rightarrow> u64 \<Rightarrow> u64 \<Rightarrow> BloomFilter \<Rightarrow> error + BloomFilter" where
  "add_enhanced_loop current_probe_hash current_step_val i f =
     (if i < num_hashes' f then
        let step_val = current_step_val + i
        in if num_bits' f = 0 then Inl undefined_behaviour
           else let bit_index = current_probe_hash mod num_bits' f
                in if unat (drop_bit 6 bit_index) < length (bits' f)
                   then add_enhanced_loop (current_probe_hash + step_val) step_val (i + 1)
                          (f\<lparr>bits' := (bits' f)[unat (drop_bit 6 bit_index) :=
                               bits' f ! unat (drop_bit 6 bit_index)
                                 OR push_bit (unat (bit_index AND 63)) 1]\<rparr>)
                   else Inl undefined_behaviour
      else Inr f)"
  by pat_completeness auto
termination
  by (relation "measure (\<lambda>(p, s, i, f). unat (num_hashes' f) - unat i)")
    (simp_all add: u64_counter_step)

declare add_enhanced_loop.simps [simp del]

definition add_enhanced :: "hash_fn \<Rightarrow> BloomFilter \<Rightarrow> bytes \<Rightarrow> error + BloomFilter" where
  "add_enhanced XXH64 f data =
     (let h1_initial = XXH64 data SEED1;
          h2_initial = XXH64 data SEED2
      in add_enhanced_loop h1_initial h2_initial 0 f)"

section \<open>The specification's view\<close>

text \<open>
  The data model's invariant: both parameters at least 1 and
  \<open>bits.length = ceil (num_bits / 64)\<close>, the quotient taken in the naturals.
\<close>

definition filter_inv :: "BloomFilter \<Rightarrow> bool" where
  "filter_inv f =
     (num_bits' f \<noteq> 0 \<and> num_hashes' f \<noteq> 0 \<and>
      length (bits' f) = (unat (num_bits' f) + 63) div 64)"

text \<open>What every constructor establishes, with the block count as the code computes it.\<close>

definition constructed :: "BloomFilter \<Rightarrow> bool" where
  "constructed f =
     (num_bits' f \<noteq> 0 \<and> num_hashes' f \<noteq> 0 \<and>
      length (bits' f) = unat ((num_bits' f + 63) div 64))"

text \<open>
  The bit array store's \<open>set\<close> and \<open>test\<close> at a bit index:
  \<open>word_index = bit_index / 64\<close>, \<open>bit_offset = bit_index % 64\<close>.
\<close>

definition set_bit_at :: "u64 \<Rightarrow> u64 list \<Rightarrow> u64 list" where
  "set_bit_at bit_index ws =
     ws[unat (bit_index div 64) :=
          ws ! unat (bit_index div 64) OR push_bit (unat (bit_index mod 64)) 1]"

definition test_bit_at :: "u64 list \<Rightarrow> u64 \<Rightarrow> bool" where
  "test_bit_at ws bit_index = bit (ws ! unat (bit_index div 64)) (unat (bit_index mod 64))"

text \<open>
  The canonical form of the index generator:
  \<open>index_i = (h1 + i * h2) mod num_bits\<close> for \<open>i\<close> in \<open>[0, num_hashes)\<close>.
\<close>

definition index_seq :: "u64 \<Rightarrow> u64 \<Rightarrow> u64 \<Rightarrow> u64 \<Rightarrow> u64 list" where
  "index_seq h1 h2 num_bits num_hashes =
     map (\<lambda>i. (h1 + word_of_nat i * h2) mod num_bits) [0..<unat num_hashes]"

text \<open>The probe positions of an item in a filter, by the canonical form.\<close>

definition probe_positions :: "hash_fn \<Rightarrow> BloomFilter \<Rightarrow> bytes \<Rightarrow> u64 list" where
  "probe_positions XXH64 f data =
     index_seq (XXH64 data SEED1) (XXH64 data SEED2) (num_bits' f) (num_hashes' f)"

text \<open>
  The enhanced form: \<open>step += i\<close> each iteration, the probe is reduced modulo
  \<open>num_bits\<close>, then \<open>probe += step\<close>.
\<close>

fun enhanced_probes :: "u64 \<Rightarrow> u64 \<Rightarrow> u64 \<Rightarrow> nat \<Rightarrow> u64 list" where
  "enhanced_probes probe step i 0 = []"
| "enhanced_probes probe step i (Suc n) =
     probe # enhanced_probes (probe + (step + i)) (step + i) (i + 1) n"

definition enhanced_index_seq :: "u64 \<Rightarrow> u64 \<Rightarrow> u64 \<Rightarrow> u64 \<Rightarrow> u64 list" where
  "enhanced_index_seq h1 h2 num_bits num_hashes =
     map (\<lambda>probe. probe mod num_bits) (enhanced_probes h1 h2 0 (unat num_hashes))"









text \<open>
  A small stand-in for the hash function, used where a statement is evaluated on
  concrete bytes.
\<close>

definition sample_hash :: hash_fn where
  "sample_hash data seed = fold (\<lambda>b h. h * 31 + ucast b) data seed"

section \<open>Indices and blocks\<close>

lemma index_in_range: "x mod m < m" if "m \<noteq> 0" for x m :: u64
  using that by (simp add: word_mod_less_divisor word_neq_0_conv)

lemma block_in_bounds:
  "unat ((x mod m) div 64) < (unat m + 63) div 64" if "m \<noteq> 0" for x m :: u64
proof -
  have "unat (x mod m) < unat m"
    using index_in_range [OF that, of x] by (simp add: word_less_nat_alt)
  then have "unat (x mod m) div 64 < (unat m + 63) div 64"
    by arith
  then show ?thesis
    by (simp add: unat_div)
qed

lemma test_word_iff: "(drop_bit n w AND 1 = 0) = (\<not> bit w n)" for w :: u64
  by (simp add: bit_iff_and_drop_bit_eq_1 and_one_eq)


lemma word_index_split:
  "idx = idx'" if "idx div 64 = idx' div 64" and "unat (idx mod 64) = unat (idx' mod 64)"
  for idx idx' :: u64
proof -
  from that(2) have "idx mod 64 = idx' mod 64"
    by (simp add: word_unat_eq_iff)
  then have "idx div 64 * 64 + idx mod 64 = idx' div 64 * 64 + idx' mod 64"
    using that(1) by simp
  then show ?thesis
    by (simp only: word_mod_div_equality)
qed

lemma offset_less_64: "unat (idx mod 64) < 64" for idx :: u64
  using word_mod_less_divisor [of 64 idx] by (simp add: word_less_nat_alt)

lemma bit_one_shifted: "bit (2 ^ n :: u64) q \<longleftrightarrow> q = n" if "n < 64"
  using that by (auto simp: bit_exp_iff)


section \<open>The bit array store\<close>

lemma length_set_bit_at [simp]: "length (set_bit_at idx ws) = length ws"
  by (simp add: set_bit_at_def)

lemma length_fold_set_bit_at [simp]: "length (fold set_bit_at idxs ws) = length ws"
  by (induction idxs arbitrary: ws) simp_all

lemma bit_set_bit_at_mono:
  "bit (set_bit_at idx ws ! j) n" if "bit (ws ! j) n"
proof (cases "unat (idx div 64) = j")
  case True
  show ?thesis
  proof (cases "j < length ws")
    case True
    with \<open>unat (idx div 64) = j\<close> that show ?thesis
      by (simp add: set_bit_at_def bit_or_iff)
  next
    case False
    with \<open>unat (idx div 64) = j\<close> that show ?thesis
      by (simp add: set_bit_at_def list_update_beyond)
  qed
next
  case False
  with that show ?thesis
    by (simp add: set_bit_at_def)
qed

lemma bit_fold_set_bit_at_mono:
  "bit (ws ! j) n \<Longrightarrow> bit (fold set_bit_at idxs ws ! j) n"
  by (induction idxs arbitrary: ws) (simp_all add: bit_set_bit_at_mono)

lemma test_set_bit_at:
  assumes "unat (idx div 64) < length ws"
  shows "test_bit_at (set_bit_at idx ws) idx' = (test_bit_at ws idx' \<or> idx' = idx)"
proof (cases "idx' div 64 = idx div 64")
  case True
  have "test_bit_at (set_bit_at idx ws) idx' =
      (test_bit_at ws idx' \<or> unat (idx' mod 64) = unat (idx mod 64))"
    using True assms
    by (simp add: test_bit_at_def set_bit_at_def bit_or_iff bit_one_shifted [OF offset_less_64])
  moreover have "unat (idx' mod 64) = unat (idx mod 64) \<longleftrightarrow> idx' = idx"
    using True word_index_split [of idx' idx] by blast
  ultimately show ?thesis
    by simp
next
  case False
  then have "idx' \<noteq> idx"
    by auto
  moreover from False have "unat (idx' div 64) \<noteq> unat (idx div 64)"
    using word_unat_eq_iff by blast
  ultimately show ?thesis
    by (simp add: test_bit_at_def set_bit_at_def)
qed

lemma test_fold_set_bit_at:
  assumes "\<forall>idx \<in> set idxs. unat (idx div 64) < length ws"
  shows "test_bit_at (fold set_bit_at idxs ws) idx' = (test_bit_at ws idx' \<or> idx' \<in> set idxs)"
  using assms
proof (induction idxs arbitrary: ws)
  case Nil
  then show ?case by simp
next
  case (Cons a idxs)
  then have "test_bit_at (fold set_bit_at idxs (set_bit_at a ws)) idx' =
      (test_bit_at (set_bit_at a ws) idx' \<or> idx' \<in> set idxs)"
    by simp
  moreover have "test_bit_at (set_bit_at a ws) idx' = (test_bit_at ws idx' \<or> idx' = a)"
    using Cons.prems by (simp add: test_set_bit_at)
  ultimately show ?case
    by auto
qed

section \<open>The loops, unrolled over the canonical indices\<close>

lemma add_loop_fold:
  assumes "num_bits' f \<noteq> 0" and "length (bits' f) = (unat (num_bits' f) + 63) div 64"
  shows "add_loop h1 h2 i f =
    Inr (f\<lparr>bits' := fold set_bit_at
      (map (\<lambda>j. (h1 + word_of_nat j * h2) mod num_bits' f) [unat i..<unat (num_hashes' f)])
      (bits' f)\<rparr>)"
  using assms
proof (induction "unat (num_hashes' f) - unat i" arbitrary: i f)
  case 0
  then have "\<not> i < num_hashes' f"
    by (simp add: word_less_nat_alt)
  with 0 show ?case
    by (simp add: add_loop.simps [of h1 h2 i f] word_less_nat_alt)
next
  case (Suc n)
  then have lt: "i < num_hashes' f"
    by (simp add: word_less_nat_alt)
  let ?idx = "(h1 + i * h2) mod num_bits' f"
  let ?f = "f\<lparr>bits' := set_bit_at ?idx (bits' f)\<rparr>"
  have inb: "unat (?idx div 64) < length (bits' f)"
    using Suc.prems block_in_bounds by simp
  have step: "add_loop h1 h2 i f = add_loop h1 h2 (i + 1) ?f"
    using lt inb by (simp add: add_loop.simps [of h1 h2 i f] Let_def set_bit_at_def)
  have "n = unat (num_hashes' ?f) - unat (i + 1)"
    using Suc.hyps(2) u64_succ [OF lt] by simp
  moreover have "num_bits' ?f \<noteq> 0" "length (bits' ?f) = (unat (num_bits' ?f) + 63) div 64"
    using Suc.prems by (simp_all add: set_bit_at_def)
  ultimately have "add_loop h1 h2 (i + 1) ?f =
    Inr (?f\<lparr>bits' := fold set_bit_at
      (map (\<lambda>j. (h1 + word_of_nat j * h2) mod num_bits' ?f) [unat (i + 1)..<unat (num_hashes' ?f)])
      (bits' ?f)\<rparr>)"
    by (rule Suc.hyps(1))
  moreover have "[unat i..<unat (num_hashes' f)] = unat i # [unat (i + 1)..<unat (num_hashes' f)]"
    using lt u64_succ [OF lt] by (simp add: word_less_nat_alt upt_conv_Cons)
  ultimately show ?case
    using step by simp
qed

lemma might_contain_loop_all:
  assumes "num_bits' f \<noteq> 0" and "length (bits' f) = (unat (num_bits' f) + 63) div 64"
  shows "might_contain_loop h1 h2 i f =
    Inr (list_all (test_bit_at (bits' f))
      (map (\<lambda>j. (h1 + word_of_nat j * h2) mod num_bits' f) [unat i..<unat (num_hashes' f)]))"
  using assms
proof (induction "unat (num_hashes' f) - unat i" arbitrary: i)
  case 0
  then show ?case
    by (simp add: might_contain_loop.simps [of h1 h2 i f] word_less_nat_alt)
next
  case (Suc n)
  then have lt: "i < num_hashes' f"
    by (simp add: word_less_nat_alt)
  let ?idx = "(h1 + i * h2) mod num_bits' f"
  have inb: "unat (?idx div 64) < length (bits' f)"
    using Suc.prems block_in_bounds by simp
  have step: "might_contain_loop h1 h2 i f =
    (if test_bit_at (bits' f) ?idx then might_contain_loop h1 h2 (i + 1) f else Inr False)"
    using lt inb
    by (simp add: might_contain_loop.simps [of h1 h2 i f] Let_def test_bit_at_def test_word_iff)
  have "n = unat (num_hashes' f) - unat (i + 1)"
    using Suc.hyps(2) u64_succ [OF lt] by simp
  then have "might_contain_loop h1 h2 (i + 1) f =
    Inr (list_all (test_bit_at (bits' f))
      (map (\<lambda>j. (h1 + word_of_nat j * h2) mod num_bits' f) [unat (i + 1)..<unat (num_hashes' f)]))"
    using Suc.prems by (rule Suc.hyps(1))
  moreover have "[unat i..<unat (num_hashes' f)] = unat i # [unat (i + 1)..<unat (num_hashes' f)]"
    using lt u64_succ [OF lt] by (simp add: word_less_nat_alt upt_conv_Cons)
  ultimately show ?case
    using step by simp
qed

section \<open>add and might\_contain on a filter that satisfies the invariant\<close>

lemma add_fold:
  assumes "num_bits' f \<noteq> 0" and "length (bits' f) = (unat (num_bits' f) + 63) div 64"
  shows "add XXH64 f data =
    Inr (f\<lparr>bits' := fold set_bit_at (probe_positions XXH64 f data) (bits' f)\<rparr>)"
  using assms add_loop_fold [OF assms, of _ _ 0]
  by (simp add: add_def probe_positions_def index_seq_def)

lemma might_contain_all:
  assumes "num_bits' f \<noteq> 0" and "length (bits' f) = (unat (num_bits' f) + 63) div 64"
  shows "might_contain XXH64 f data =
    Inr (list_all (test_bit_at (bits' f)) (probe_positions XXH64 f data))"
  using assms might_contain_loop_all [OF assms, of _ _ 0]
  by (simp add: might_contain_def probe_positions_def index_seq_def)

lemma probe_positions_in_bounds:
  assumes "num_bits' f \<noteq> 0" and "length (bits' f) = (unat (num_bits' f) + 63) div 64"
  shows "\<forall>idx \<in> set (probe_positions XXH64 f data). unat (idx div 64) < length (bits' f)"
  using assms by (auto simp: probe_positions_def index_seq_def block_in_bounds)

lemma probe_positions_update [simp]:
  "probe_positions XXH64 (f\<lparr>bits' := ws\<rparr>) data = probe_positions XXH64 f data"
  by (simp add: probe_positions_def)

lemma filter_inv_add:
  assumes "filter_inv f"
  shows "\<exists>f'. add XXH64 f data = Inr f' \<and> filter_inv f' \<and>
    num_bits' f' = num_bits' f \<and> num_hashes' f' = num_hashes' f \<and>
    bits' f' = fold set_bit_at (probe_positions XXH64 f data) (bits' f)"
  using assms add_fold [of f XXH64 data] by (simp add: filter_inv_def)

lemma filter_inv_adds:
  assumes "filter_inv f"
  shows "\<exists>f'. adds XXH64 f xs = Inr f' \<and> filter_inv f' \<and>
    num_bits' f' = num_bits' f \<and> num_hashes' f' = num_hashes' f \<and>
    length (bits' f') = length (bits' f) \<and>
    (\<forall>j n. bit (bits' f ! j) n \<longrightarrow> bit (bits' f' ! j) n)"
  using assms
proof (induction xs arbitrary: f)
  case Nil
  then show ?case by simp
next
  case (Cons x xs)
  from filter_inv_add [OF Cons.prems, of XXH64 x] obtain g where
    g: "add XXH64 f x = Inr g" "filter_inv g" "num_bits' g = num_bits' f"
      "num_hashes' g = num_hashes' f"
      "bits' g = fold set_bit_at (probe_positions XXH64 f x) (bits' f)"
    by blast
  from Cons.IH [OF g(2)] obtain f' where
    f': "adds XXH64 g xs = Inr f'" "filter_inv f'" "num_bits' f' = num_bits' g"
      "num_hashes' f' = num_hashes' g" "length (bits' f') = length (bits' g)"
      "\<forall>j n. bit (bits' g ! j) n \<longrightarrow> bit (bits' f' ! j) n"
    by blast
  have "\<forall>j n. bit (bits' f ! j) n \<longrightarrow> bit (bits' f' ! j) n"
    using f'(6) g(5) by (simp add: bit_fold_set_bit_at_mono)
  with g f' show ?case
    by simp
qed

lemma unat_index_seq_nth:
  fixes h1 h2 m k :: u64
  assumes "i < unat k"
  shows "unat ((h1 + word_of_nat i * h2) mod m) = ((unat h1 + i * unat h2) mod 2 ^ 64) mod unat m"
proof -
  have "unat k < 2 ^ LENGTH(64)"
    by (rule unsigned_less)
  with assms have "i < 2 ^ LENGTH(64)"
    by simp
  then have "unat (word_of_nat i :: u64) = i"
    by (simp add: unat_of_nat)
  then have "unat (h1 + word_of_nat i * h2) = (unat h1 + i * unat h2) mod 2 ^ 64"
    by (simp add: unat_word_ariths mod_add_right_eq)
  then show ?thesis
    by (simp add: unat_mod)
qed

section \<open>What the constructors establish\<close>





lemma add_loop_preserves:
  "add_loop h1 h2 i f = Inr f' \<Longrightarrow>
    num_bits' f' = num_bits' f \<and> num_hashes' f' = num_hashes' f \<and>
    length (bits' f') = length (bits' f)"
proof (induction h1 h2 i f rule: add_loop.induct)
  case (1 h1 h2 i f)
  show ?case
  proof (cases "i < num_hashes' f")
    case False
    with "1.prems" show ?thesis
      by (simp add: add_loop.simps [of h1 h2 i f])
  next
    case True
    let ?b = "unat ((h1 + i * h2) mod num_bits' f div 64)"
    let ?f = "f\<lparr>bits' := (bits' f)[?b :=
      bits' f ! ?b OR push_bit (unat ((h1 + i * h2) mod num_bits' f mod 64)) 1]\<rparr>"
    from True "1.prems" have inb: "?b < length (bits' f)"
      by (simp add: add_loop.simps [of h1 h2 i f] Let_def split: if_splits)
    with True "1.prems" have "add_loop h1 h2 (i + 1) ?f = Inr f'"
      by (simp add: add_loop.simps [of h1 h2 i f] Let_def)
    with "1.IH" [OF True refl refl refl refl inb]
    have "num_bits' f' = num_bits' ?f \<and> num_hashes' f' = num_hashes' ?f \<and>
      length (bits' f') = length (bits' ?f)"
      by simp
    then show ?thesis
      by simp
  qed
qed




lemma constructed_filter_inv:
  "filter_inv f" if "constructed f" and "unat (num_bits' f) + 63 < 2 ^ 64"
proof -
  from that(2) have "unat (num_bits' f) + unat (63 :: u64) < 2 ^ LENGTH(64)"
    by simp
  then have "unat (num_bits' f + 63) = unat (num_bits' f) + 63"
    by (simp add: unat_add_lem [THEN iffD1])
  then have "unat ((num_bits' f + 63) div 64) = (unat (num_bits' f) + 63) div 64"
    by (simp add: unat_div)
  with that(1) show ?thesis
    by (simp add: constructed_def filter_inv_def)
qed

text \<open>
  Below the wrap-around of \<^verbatim>\<open>num_bits_ + 63\<close> the restore constructor checks the
  length against \<open>ceil (num_bits / 64)\<close>, and a fresh filter answers \<open>false\<close>.
\<close>

lemma restore_state_corruption_iff:
  assumes "num_bits \<noteq> 0" and "num_hashes \<noteq> 0" and "unat num_bits + 63 < 2 ^ 64"
  shows "BloomFilter_restore num_bits num_hashes raw_words = Inl runtime_error \<longleftrightarrow>
      length raw_words \<noteq> (unat num_bits + 63) div 64"
    and "BloomFilter_restore num_bits num_hashes raw_words = Inr F \<Longrightarrow> bits' F = raw_words"
proof -
  from assms(3) have "unat num_bits + unat (63 :: u64) < 2 ^ LENGTH(64)"
    by simp
  then have "unat (num_bits + 63) = unat num_bits + 63"
    by (simp add: unat_add_lem [THEN iffD1])
  then have "unat ((num_bits + 63) div 64) = (unat num_bits + 63) div 64"
    by (simp add: unat_div)
  with assms(1,2)
  show "BloomFilter_restore num_bits num_hashes raw_words = Inl runtime_error \<longleftrightarrow>
      length raw_words \<noteq> (unat num_bits + 63) div 64"
    by (simp add: BloomFilter_restore_def)
  show "BloomFilter_restore num_bits num_hashes raw_words = Inr F \<Longrightarrow> bits' F = raw_words"
    by (auto simp: BloomFilter_restore_def Let_def split: if_splits)
qed

lemma test_bit_at_replicate_zero:
  "\<not> test_bit_at (replicate n 0) idx" if "unat (idx div 64) < n"
  using that by (simp add: test_bit_at_def)

lemma fresh_filter_empty:
  assumes "num_bits' f \<noteq> 0" and "num_hashes' f \<noteq> 0" and "unat (num_bits' f) + 63 < 2 ^ 64"
  shows "might_contain XXH64 (initialize_bits f) x = Inr False"
proof -
  let ?g = "initialize_bits f"
  have c: "constructed ?g"
    using assms(1,2) by (simp add: constructed_def initialize_bits_def)
  have same: "num_bits' ?g = num_bits' f" "num_hashes' ?g = num_hashes' f"
    by (simp_all add: initialize_bits_def)
  with c assms(3) have inv: "filter_inv ?g"
    by (simp add: constructed_filter_inv)
  then have len: "length (bits' ?g) = (unat (num_bits' ?g) + 63) div 64" and nz: "num_bits' ?g \<noteq> 0"
    by (simp_all add: filter_inv_def)
  have "0 < unat (num_hashes' ?g)"
    using assms(2) same by (simp add: unat_gt_0)
  then have "0 \<in> {0..<unat (num_hashes' ?g)}"
    by simp
  then have "(XXH64 x SEED1 + word_of_nat 0 * XXH64 x SEED2) mod num_bits' ?g
      \<in> set (probe_positions XXH64 ?g x)"
    unfolding probe_positions_def index_seq_def set_map set_upt by (rule imageI)
  then obtain idx where idx: "idx \<in> set (probe_positions XXH64 ?g x)"
    by blast
  with probe_positions_in_bounds [OF nz len, of XXH64 x]
  have "unat (idx div 64) < length (bits' ?g)"
    by blast
  then have "\<not> test_bit_at (bits' ?g) idx"
    by (simp add: initialize_bits_def test_bit_at_replicate_zero)
  with idx have "\<not> list_all (test_bit_at (bits' ?g)) (probe_positions XXH64 ?g x)"
    by (auto simp: list_all_iff)
  then show ?thesis
    by (simp add: might_contain_all [OF nz len])
qed

text \<open>When the two-argument constructors end with \<open>invalid_argument\<close>.\<close>

lemma optimal_invalid_argument_iff:
  "BloomFilter_optimal m_candidate_fp k_candidate_fp n p = Inl invalid_argument \<longleftrightarrow>
     n = 0 \<or> double_le p (Finite 0) \<or> double_ge p (Finite 1)"
  by (simp add: BloomFilter_optimal_def calculate_optimal_params_def Let_def
      split: sum.splits option.splits)

lemma explicit_invalid_argument_iff:
  "BloomFilter_explicit num_bits num_hashes = Inl invalid_argument \<longleftrightarrow>
     num_bits = 0 \<or> num_hashes = 0"
  by (simp add: BloomFilter_explicit_def)

lemma double_rate_cases:
  "double_le p (Finite 0) \<or> double_ge p (Finite 1) \<longleftrightarrow>
     (case p of Finite r \<Rightarrow> r \<le> 0 \<or> 1 \<le> r | PosInf \<Rightarrow> True | NegInf \<Rightarrow> True | NaN \<Rightarrow> False)"
  by (cases p) (simp_all add: double_ge_def)

section \<open>The loops on an arbitrary filter\<close>

text \<open>
  Nothing is assumed about the length of the word vector here: a run that returns has
  made every access in range.
\<close>

lemma bit_set_bit_at_self:
  "test_bit_at (set_bit_at idx ws) idx" if "unat (idx div 64) < length ws"
  using that by (simp add: test_set_bit_at)

lemma add_loop_partial:
  "add_loop h1 h2 i f = Inr f' \<Longrightarrow>
    (\<forall>j n. bit (bits' f ! j) n \<longrightarrow> bit (bits' f' ! j) n) \<and>
    (\<forall>t. unat i \<le> t \<and> t < unat (num_hashes' f) \<longrightarrow>
       unat ((h1 + word_of_nat t * h2) mod num_bits' f div 64) < length (bits' f) \<and>
       test_bit_at (bits' f') ((h1 + word_of_nat t * h2) mod num_bits' f))"
proof (induction h1 h2 i f rule: add_loop.induct)
  case (1 h1 h2 i f)
  show ?case
  proof (cases "i < num_hashes' f")
    case False
    then have "\<not> (unat i \<le> t \<and> t < unat (num_hashes' f))" for t
      by (simp add: word_less_nat_alt)
    moreover from False "1.prems" have "f' = f"
      by (simp add: add_loop.simps [of h1 h2 i f])
    ultimately show ?thesis
      by blast
  next
    case True
    let ?idx = "(h1 + i * h2) mod num_bits' f"
    let ?f = "f\<lparr>bits' := set_bit_at ?idx (bits' f)\<rparr>"
    from True "1.prems" have inb: "unat (?idx div 64) < length (bits' f)"
      by (simp add: add_loop.simps [of h1 h2 i f] Let_def split: if_splits)
    with True "1.prems" have run: "add_loop h1 h2 (i + 1) ?f = Inr f'"
      by (simp add: add_loop.simps [of h1 h2 i f] Let_def set_bit_at_def)
    from "1.IH" [OF True refl refl refl refl inb] run
    have mono: "\<forall>j n. bit (bits' ?f ! j) n \<longrightarrow> bit (bits' f' ! j) n"
      and rest: "\<forall>t. unat (i + 1) \<le> t \<and> t < unat (num_hashes' ?f) \<longrightarrow>
        unat ((h1 + word_of_nat t * h2) mod num_bits' ?f div 64) < length (bits' ?f) \<and>
        test_bit_at (bits' f') ((h1 + word_of_nat t * h2) mod num_bits' ?f)"
      by (simp_all add: set_bit_at_def)
    have a: "\<forall>j n. bit (bits' f ! j) n \<longrightarrow> bit (bits' f' ! j) n"
      using mono by (simp add: bit_set_bit_at_mono)
    have "test_bit_at (bits' ?f) ?idx"
      using inb by (simp add: bit_set_bit_at_self)
    with mono have here: "test_bit_at (bits' f') ?idx"
      by (simp add: test_bit_at_def)
    have b: "unat ((h1 + word_of_nat t * h2) mod num_bits' f div 64) < length (bits' f) \<and>
        test_bit_at (bits' f') ((h1 + word_of_nat t * h2) mod num_bits' f)"
      if "unat i \<le> t" and "t < unat (num_hashes' f)" for t
    proof (cases "t = unat i")
      case True
      with inb here show ?thesis
        by simp
    next
      case False
      with that u64_succ [OF \<open>i < num_hashes' f\<close>] have "unat (i + 1) \<le> t"
        by simp
      with rest that(2) show ?thesis
        by simp
    qed
    from a b show ?thesis
      by blast
  qed
qed

lemma all_from_split:
  "(\<forall>t. a \<le> t \<and> t < k \<longrightarrow> P t) \<longleftrightarrow> P a \<and> (\<forall>t. Suc a \<le> t \<and> t < k \<longrightarrow> P t)"
  if "a < k" for a k :: nat
proof
  assume all: "\<forall>t. a \<le> t \<and> t < k \<longrightarrow> P t"
  with that have "P a"
    by simp
  moreover from all have "\<forall>t. Suc a \<le> t \<and> t < k \<longrightarrow> P t"
    by simp
  ultimately show "P a \<and> (\<forall>t. Suc a \<le> t \<and> t < k \<longrightarrow> P t)" ..
next
  assume rhs: "P a \<and> (\<forall>t. Suc a \<le> t \<and> t < k \<longrightarrow> P t)"
  show "\<forall>t. a \<le> t \<and> t < k \<longrightarrow> P t"
  proof (intro allI impI)
    fix t
    assume "a \<le> t \<and> t < k"
    then consider "t = a" | "Suc a \<le> t" "t < k"
      by (cases "t = a") auto
    then show "P t"
      using rhs by cases simp_all
  qed
qed

lemma might_contain_loop_true_iff:
  "might_contain_loop h1 h2 i f = Inr True \<longleftrightarrow>
    (\<forall>t. unat i \<le> t \<and> t < unat (num_hashes' f) \<longrightarrow>
       unat ((h1 + word_of_nat t * h2) mod num_bits' f div 64) < length (bits' f) \<and>
       test_bit_at (bits' f) ((h1 + word_of_nat t * h2) mod num_bits' f))"
proof (induction h1 h2 i f rule: might_contain_loop.induct)
  case (1 h1 h2 i f)
  show ?case
  proof (cases "i < num_hashes' f")
    case False
    then have "\<not> (unat i \<le> t \<and> t < unat (num_hashes' f))" for t
      by (simp add: word_less_nat_alt)
    moreover from False have "might_contain_loop h1 h2 i f = Inr True"
      by (simp add: might_contain_loop.simps [of h1 h2 i f])
    ultimately show ?thesis
      by blast
  next
    case True
    let ?idx = "(h1 + i * h2) mod num_bits' f"
    let ?P = "\<lambda>t. unat ((h1 + word_of_nat t * h2) mod num_bits' f div 64) < length (bits' f) \<and>
       test_bit_at (bits' f) ((h1 + word_of_nat t * h2) mod num_bits' f)"
    have lt: "unat i < unat (num_hashes' f)"
      using True by (simp add: word_less_nat_alt)
    have succ: "unat (i + 1) = Suc (unat i)"
      using True by (rule u64_succ)
    have split: "(\<forall>t. unat i \<le> t \<and> t < unat (num_hashes' f) \<longrightarrow> ?P t) \<longleftrightarrow>
        ?P (unat i) \<and> (\<forall>t. unat (i + 1) \<le> t \<and> t < unat (num_hashes' f) \<longrightarrow> ?P t)"
      unfolding succ using lt by (rule all_from_split)
    show ?thesis
    proof (cases "?P (unat i)")
      case False
      then have "might_contain_loop h1 h2 i f \<noteq> Inr True"
        using True
        by (auto simp: might_contain_loop.simps [of h1 h2 i f] Let_def test_bit_at_def
            test_word_iff)
      with False split show ?thesis
        by blast
    next
      case here: True
      then have "might_contain_loop h1 h2 i f = might_contain_loop h1 h2 (i + 1) f"
        using True
        by (simp add: might_contain_loop.simps [of h1 h2 i f] Let_def test_bit_at_def
            test_word_iff)
      moreover have "might_contain_loop h1 h2 (i + 1) f = Inr True \<longleftrightarrow>
          (\<forall>t. unat (i + 1) \<le> t \<and> t < unat (num_hashes' f) \<longrightarrow> ?P t)"
        using here True
        by (intro "1.IH" [OF True refl refl refl refl])
          (simp_all add: test_bit_at_def test_word_iff)
      ultimately show ?thesis
        using here split by simp
    qed
  qed
qed

lemma might_contain_true_iff:
  "might_contain XXH64 f x = Inr True \<longleftrightarrow>
    num_bits' f \<noteq> 0 \<and>
    (\<forall>t < unat (num_hashes' f).
       unat ((XXH64 x SEED1 + word_of_nat t * XXH64 x SEED2) mod num_bits' f div 64)
         < length (bits' f) \<and>
       test_bit_at (bits' f) ((XXH64 x SEED1 + word_of_nat t * XXH64 x SEED2) mod num_bits' f))"
  by (simp add: might_contain_def might_contain_loop_true_iff)

lemma add_partial:
  assumes "add XXH64 f y = Inr f'"
  shows "num_bits' f' = num_bits' f \<and> num_hashes' f' = num_hashes' f \<and>
    length (bits' f') = length (bits' f) \<and>
    (\<forall>j n. bit (bits' f ! j) n \<longrightarrow> bit (bits' f' ! j) n)"
proof (cases "num_bits' f = 0")
  case True
  with assms show ?thesis
    by (simp add: add_def)
next
  case False
  with assms have run: "add_loop (XXH64 y SEED1) (XXH64 y SEED2) 0 f = Inr f'"
    by (simp add: add_def)
  from add_loop_preserves [OF run] add_loop_partial [OF run] show ?thesis
    by blast
qed

lemma might_contain_after_add_partial:
  assumes "num_bits' f \<noteq> 0" and "add XXH64 f x = Inr f'"
  shows "might_contain XXH64 f' x = Inr True"
proof -
  from assms have run: "add_loop (XXH64 x SEED1) (XXH64 x SEED2) 0 f = Inr f'"
    by (simp add: add_def)
  from add_loop_preserves [OF run] have same: "num_bits' f' = num_bits' f"
    "num_hashes' f' = num_hashes' f" "length (bits' f') = length (bits' f)"
    by simp_all
  from add_loop_partial [OF run] assms(1) show ?thesis
    by (simp add: might_contain_true_iff same)
qed

lemma might_contain_mono_partial:
  assumes "might_contain XXH64 f x = Inr True" and "add XXH64 f y = Inr f'"
  shows "might_contain XXH64 f' x = Inr True"
proof -
  from add_partial [OF assms(2)] have same: "num_bits' f' = num_bits' f"
    "num_hashes' f' = num_hashes' f" "length (bits' f') = length (bits' f)"
    and mono: "\<forall>j n. bit (bits' f ! j) n \<longrightarrow> bit (bits' f' ! j) n"
    by simp_all
  from assms(1) mono show ?thesis
    by (simp add: might_contain_true_iff same test_bit_at_def)
qed

lemma adds_partial:
  "adds XXH64 f ys = Inr f' \<Longrightarrow>
    num_bits' f' = num_bits' f \<and> num_hashes' f' = num_hashes' f \<and>
    length (bits' f') = length (bits' f) \<and>
    (\<forall>j n. bit (bits' f ! j) n \<longrightarrow> bit (bits' f' ! j) n) \<and>
    (\<forall>x. might_contain XXH64 f x = Inr True \<longrightarrow> might_contain XXH64 f' x = Inr True)"
proof (induction ys arbitrary: f)
  case Nil
  then show ?case by simp
next
  case (Cons y ys)
  from Cons.prems obtain g where g: "add XXH64 f y = Inr g" "adds XXH64 g ys = Inr f'"
    by (auto split: sum.splits)
  note first = add_partial [OF g(1)] and rest = Cons.IH [OF g(2)]
  have "might_contain XXH64 f' x = Inr True" if "might_contain XXH64 f x = Inr True" for x
  proof -
    from that g(1) have "might_contain XXH64 g x = Inr True"
      by (rule might_contain_mono_partial)
    with rest show ?thesis
      by blast
  qed
  with first rest show ?case
    by simp
qed

section \<open>The enhanced recurrence\<close>

lemma shift_is_div: "drop_bit 6 x = x div 64" for x :: u64
  by (simp add: drop_bit_eq_div)

lemma mask_is_mod: "x AND 63 = x mod 64" for x :: u64
proof -
  have "x AND mask 6 = x mod 2 ^ 6"
    by (simp flip: take_bit_eq_mask add: take_bit_eq_mod)
  then show ?thesis
    by (simp add: mask_eq_exp_minus_1)
qed

lemma add_enhanced_loop_fold:
  assumes "num_bits' f \<noteq> 0" and "length (bits' f) = (unat (num_bits' f) + 63) div 64"
  shows "add_enhanced_loop probe step i f =
    Inr (f\<lparr>bits' := fold set_bit_at
      (map (\<lambda>p. p mod num_bits' f) (enhanced_probes probe step i (unat (num_hashes' f) - unat i)))
      (bits' f)\<rparr>)"
  using assms
proof (induction "unat (num_hashes' f) - unat i" arbitrary: probe step i f)
  case 0
  then have "\<not> i < num_hashes' f"
    by (simp add: word_less_nat_alt)
  with 0 show ?case
    by (simp add: add_enhanced_loop.simps [of probe step i f])
next
  case (Suc n)
  then have lt: "i < num_hashes' f"
    by (simp add: word_less_nat_alt)
  let ?idx = "probe mod num_bits' f"
  let ?f = "f\<lparr>bits' := set_bit_at ?idx (bits' f)\<rparr>"
  have inb: "unat (?idx div 64) < length (bits' f)"
    using Suc.prems block_in_bounds by simp
  have step: "add_enhanced_loop probe step i f =
      add_enhanced_loop (probe + (step + i)) (step + i) (i + 1) ?f"
    using lt inb Suc.prems(1)
    by (simp add: add_enhanced_loop.simps [of probe step i f] Let_def set_bit_at_def
        shift_is_div mask_is_mod)
  have n: "n = unat (num_hashes' ?f) - unat (i + 1)"
    using Suc.hyps(2) u64_succ [OF lt] by simp
  moreover have "num_bits' ?f \<noteq> 0" "length (bits' ?f) = (unat (num_bits' ?f) + 63) div 64"
    using Suc.prems by (simp_all add: set_bit_at_def)
  ultimately have "add_enhanced_loop (probe + (step + i)) (step + i) (i + 1) ?f =
    Inr (?f\<lparr>bits' := fold set_bit_at
      (map (\<lambda>p. p mod num_bits' ?f)
        (enhanced_probes (probe + (step + i)) (step + i) (i + 1)
          (unat (num_hashes' ?f) - unat (i + 1))))
      (bits' ?f)\<rparr>)"
    by (rule Suc.hyps(1))
  moreover have "unat (num_hashes' f) - unat i = Suc (unat (num_hashes' f) - unat (i + 1))"
    using Suc.hyps(2) n by simp
  ultimately show ?case
    using step by simp
qed

lemma add_enhanced_fold:
  assumes "num_bits' f \<noteq> 0" and "length (bits' f) = (unat (num_bits' f) + 63) div 64"
  shows "add_enhanced XXH64 f data =
    Inr (f\<lparr>bits' := fold set_bit_at
      (enhanced_index_seq (XXH64 data SEED1) (XXH64 data SEED2) (num_bits' f) (num_hashes' f))
      (bits' f)\<rparr>)"
  using add_enhanced_loop_fold [OF assms, of _ _ 0]
  by (simp add: add_enhanced_def enhanced_index_seq_def)

lemma unat_mod4_add: "unat (x + y) mod 4 = (unat x + unat y) mod 4" for x y :: u64
proof -
  have "(4 :: nat) dvd 2 ^ 64"
    by simp
  then show ?thesis
    by (simp add: unat_word_ariths mod_mod_cancel)
qed

lemma unat_mod4_mult: "unat (x * y) mod 4 = (unat x * unat y) mod 4" for x y :: u64
proof -
  have "(4 :: nat) dvd 2 ^ 64"
    by simp
  then show ?thesis
    by (simp add: unat_word_ariths mod_mod_cancel)
qed

lemma lin4: "(a + c * b + d) mod 4 = (a mod 4 + c * (b mod 4) + d) mod 4" for a b c d :: nat
  by (intro mod_add_cong mod_mult_cong) simp_all

lemma residues4: "n mod 4 = 0 \<or> n mod 4 = 1 \<or> n mod 4 = 2 \<or> n mod 4 = 3" for n :: nat
  by arith

lemma even_step:
  fixes a b :: nat
  assumes "even b"
  shows "(a + 2 * b + 1) mod 4 \<noteq> (a + 0 * b + 0) mod 4 \<and> (a + 2 * b + 1) mod 4 \<noteq> (a + 1 * b + 0) mod 4 \<and>
    (a + 2 * b + 1) mod 4 \<noteq> (a + 2 * b + 0) mod 4 \<and> (a + 2 * b + 1) mod 4 \<noteq> (a + 3 * b + 0) mod 4"
proof -
  from assms have "b mod 4 = 0 \<or> b mod 4 = 2"
    by arith
  then show ?thesis
    unfolding lin4 [of a _ b] using residues4 [of a] by (elim disjE) simp_all
qed

lemma odd_step:
  fixes a b :: nat
  assumes "odd b"
  shows "(a + 2 * b + 0) mod 4 \<noteq> (a + 0 * b + 0) mod 4 \<and> (a + 2 * b + 0) mod 4 \<noteq> (a + 1 * b + 0) mod 4 \<and>
    (a + 2 * b + 0) mod 4 \<noteq> (a + 2 * b + 1) mod 4 \<and> (a + 2 * b + 0) mod 4 \<noteq> (a + 3 * b + 4) mod 4"
proof -
  from assms have "b mod 4 = 1 \<or> b mod 4 = 3"
    by arith
  then show ?thesis
    unfolding lin4 [of a _ b] using residues4 [of a] by (elim disjE) simp_all
qed

lemma simple_4_4:
  "index_seq h1 h2 4 4 =
     [(h1 + 0 * h2 + 0) mod 4, (h1 + 1 * h2 + 0) mod 4,
      (h1 + 2 * h2 + 0) mod 4, (h1 + 3 * h2 + 0) mod 4]"
  by (simp add: index_seq_def upt_conv_Cons)

lemma enhanced_4_4:
  "enhanced_index_seq h1 h2 4 4 =
     [(h1 + 0 * h2 + 0) mod 4, (h1 + 1 * h2 + 0) mod 4,
      (h1 + 2 * h2 + 1) mod 4, (h1 + 3 * h2 + 4) mod 4]"
proof -
  have four: "unat (4 :: u64) = Suc (Suc (Suc (Suc 0)))"
    by simp
  show ?thesis
    unfolding enhanced_index_seq_def four by (simp add: algebra_simps)
qed

lemma unat_mod4_linear:
  "unat ((h1 + c * h2 + d) mod 4) = (unat h1 + unat c * unat h2 + unat d) mod 4"
  for h1 h2 c d :: u64
proof -
  have inner: "unat (h1 + c * h2) mod 4 = (unat h1 + unat c * unat h2) mod 4"
    by (metis unat_mod4_add unat_mod4_mult mod_add_right_eq)
  have "unat ((h1 + c * h2 + d) mod 4) = unat (h1 + c * h2 + d) mod 4"
    by (simp add: unat_mod)
  also have "\<dots> = (unat h1 + unat c * unat h2 + unat d) mod 4"
    by (metis unat_mod4_add inner mod_add_left_eq)
  finally show ?thesis .
qed

lemma index_sets_differ_4_4:
  "\<exists>x. x < 4 \<and> (x \<in> set (index_seq h1 h2 4 4)) \<noteq> (x \<in> set (enhanced_index_seq h1 h2 4 4))"
proof (cases "even (unat h2)")
  case True
  let ?x = "(h1 + 2 * h2 + 1) mod 4"
  have "unat ?x \<noteq> unat y" if "y \<in> set (index_seq h1 h2 4 4)" for y
    using that even_step [OF True, of "unat h1"]
    by (auto simp: simple_4_4 unat_mod4_linear simp del: mult_zero_left mult_1 add_0_right)
  then have "?x \<notin> set (index_seq h1 h2 4 4)"
    by blast
  moreover have "?x \<in> set (enhanced_index_seq h1 h2 4 4)"
    unfolding enhanced_4_4 by simp
  moreover have "?x < 4"
    by (simp add: index_in_range)
  ultimately show ?thesis
    by blast
next
  case False
  let ?x = "(h1 + 2 * h2 + 0) mod 4"
  have "unat ?x \<noteq> unat y" if "y \<in> set (enhanced_index_seq h1 h2 4 4)" for y
    using that odd_step [OF False, of "unat h1"]
    by (auto simp: enhanced_4_4 unat_mod4_linear simp del: mult_zero_left mult_1 add_0_right)
  then have "?x \<notin> set (enhanced_index_seq h1 h2 4 4)"
    by blast
  moreover have "?x \<in> set (index_seq h1 h2 4 4)"
    unfolding simple_4_4 by simp
  moreover have "?x < 4"
    by (simp add: index_in_range)
  ultimately show ?thesis
    by blast
qed

lemma member_iff_of_equal_folds:
  assumes "\<forall>idx \<in> set S. unat (idx div 64) < length ws"
    and "\<forall>idx \<in> set E. unat (idx div 64) < length ws"
    and "fold set_bit_at S ws = fold set_bit_at E ws"
    and "\<not> test_bit_at ws x"
  shows "x \<in> set S \<longleftrightarrow> x \<in> set E"
proof -
  have "test_bit_at (fold set_bit_at S ws) x = test_bit_at (fold set_bit_at E ws) x"
    by (simp add: assms(3))
  with assms(4) show ?thesis
    by (simp add: test_fold_set_bit_at [OF assms(1)] test_fold_set_bit_at [OF assms(2)])
qed

section \<open>The optimal parameters in double arithmetic\<close>

subsection \<open>Conversions\<close>



lemma round_size_max: "round_nat_to_double 18446744073709551615 = 2 ^ 64"
  by (simp add: round_nat_to_double_def bit_length.simps Let_def)


lemma size_max_to_double: "size_t_to_double 0xFFFFFFFFFFFFFFFF = Finite (2 ^ 64)"
  by (simp add: size_t_to_double_def round_size_max)





subsection \<open>When the function returns, and what\<close>




subsection \<open>Bounds on the logarithms\<close>












subsection \<open>The run for 1000 items and a rate of 0.01\<close>








subsection \<open>The real formula beyond 53 bits\<close>






section \<open>No false negatives once add has returned\<close>

text \<open>
  Let a filter have \<open>num_bits \<ge> 1\<close> and \<open>num_hashes \<ge> 1\<close>. Whenever \<open>add x\<close> returns,
  \<open>might_contain x\<close> is true in the filter it returns, and it is true again after
  every further sequence of \<open>add\<close> calls that returns. If the word vector has one word
  for each started block of 64 bits, \<open>add x\<close> and every further sequence of \<open>add\<close>
  calls do return.
\<close>

lemma no_false_negatives:
  assumes "num_bits' f \<noteq> 0" and "num_hashes' f \<noteq> 0"
  shows "(\<forall>f'. add XXH64 f x = Inr f' \<longrightarrow>
        might_contain XXH64 f' x = Inr True \<and>
        (\<forall>ys f''. adds XXH64 f' ys = Inr f'' \<longrightarrow> might_contain XXH64 f'' x = Inr True)) \<and>
    (length (bits' f) = (unat (num_bits' f) + 63) div 64 \<longrightarrow>
      (\<exists>f'. add XXH64 f x = Inr f' \<and> (\<forall>ys. \<exists>f''. adds XXH64 f' ys = Inr f'')))"
proof -
  have "might_contain XXH64 f' x = Inr True \<and>
      (\<forall>ys f''. adds XXH64 f' ys = Inr f'' \<longrightarrow> might_contain XXH64 f'' x = Inr True)"
    if "add XXH64 f x = Inr f'" for f'
  proof -
    from assms(1) that have "might_contain XXH64 f' x = Inr True"
      by (rule might_contain_after_add_partial)
    then show ?thesis
      using adds_partial [of XXH64 f'] by blast
  qed
  moreover have "\<exists>f'. add XXH64 f x = Inr f' \<and> (\<forall>ys. \<exists>f''. adds XXH64 f' ys = Inr f'')"
    if "length (bits' f) = (unat (num_bits' f) + 63) div 64"
  proof -
    from assms that have "filter_inv f"
      by (simp add: filter_inv_def)
    from filter_inv_add [OF this, of XXH64 x] obtain f' where
      f': "add XXH64 f x = Inr f'" "filter_inv f'"
      by blast
    from filter_inv_adds [OF f'(2), of XXH64] have "\<forall>ys. \<exists>f''. adds XXH64 f' ys = Inr f''"
      by blast
    with f'(1) show ?thesis
      by blast
  qed
  ultimately show ?thesis
    by blast
qed

lemma no_false_negatives_example:
  "num_bits' \<lparr>bits' = [0, 0], num_bits' = 100, num_hashes' = 3\<rparr> \<noteq> 0 \<and>
   num_hashes' \<lparr>bits' = [0, 0], num_bits' = 100, num_hashes' = 3\<rparr> \<noteq> 0 \<and>
   length (bits' \<lparr>bits' = [0, 0], num_bits' = 100, num_hashes' = 3\<rparr>) = (unat (100 :: u64) + 63) div 64 \<and>
   add sample_hash \<lparr>bits' = [0, 0], num_bits' = 100, num_hashes' = 3\<rparr> [0x61, 0x62, 0x63] =
     Inr \<lparr>bits' = [9223372311732682752, 8589934592], num_bits' = 100, num_hashes' = 3\<rparr> \<and>
   might_contain sample_hash
     \<lparr>bits' = [9223372311732682752, 8589934592], num_bits' = 100, num_hashes' = 3\<rparr>
     [0x61, 0x62, 0x63] = Inr True \<and>
   adds sample_hash
     \<lparr>bits' = [9223372311732682752, 8589934592], num_bits' = 100, num_hashes' = 3\<rparr>
     [[0x78], []] =
     Inr \<lparr>bits' = [9224498246536134656, 8657043584], num_bits' = 100, num_hashes' = 3\<rparr> \<and>
   might_contain sample_hash
     \<lparr>bits' = [9224498246536134656, 8657043584], num_bits' = 100, num_hashes' = 3\<rparr>
     [0x61, 0x62, 0x63] = Inr True"
proof -
  let ?F0 = "\<lparr>bits' = [0, 0], num_bits' = 100, num_hashes' = 3\<rparr>"
  let ?F1 = "\<lparr>bits' = [9223372311732682752, 8589934592], num_bits' = 100, num_hashes' = 3\<rparr>"
  let ?F2 = "\<lparr>bits' = [9224498246536134656, 8657043584], num_bits' = 100, num_hashes' = 3\<rparr>"
  let ?abc = "[0x61, 0x62, 0x63] :: bytes"
  have m: "num_bits' ?F0 \<noteq> 0" and k: "num_hashes' ?F0 \<noteq> 0"
    and len: "length (bits' ?F0) = (unat (100 :: u64) + 63) div 64"
    by simp_all
  have run: "add sample_hash ?F0 ?abc = Inr ?F1"
    by (simp add: add_def add_loop.simps sample_hash_def SEED1_def SEED2_def Let_def)
  have more: "adds sample_hash ?F1 [[0x78], []] = Inr ?F2"
    by (simp add: add_def add_loop.simps sample_hash_def SEED1_def SEED2_def Let_def)
  from no_false_negatives [OF m k, of sample_hash ?abc] run more
  have "might_contain sample_hash ?F1 ?abc = Inr True"
    and "might_contain sample_hash ?F2 ?abc = Inr True"
    by blast+
  with m k len run more show ?thesis
    by blast
qed

section \<open>The claims\<close>

text \<open>
  C1 (no false negatives). The filter that the explicit constructor builds for
  \<open>num_bits = 2 ^ 64 - 1\<close> and \<open>num_hashes = 1\<close> has both parameters at least 1 and
  no word at all, since \<^verbatim>\<open>(num_bits_ + 63) / 64\<close> wraps to 0: \<open>add\<close> on it writes
  \<^verbatim>\<open>bits_[block_index]\<close> out of bounds for every item, so there is no state after
  \<open>add x\<close> in which \<open>might_contain x\<close> could return \<open>true\<close>. On every filter whose
  word vector has length \<open>ceil (num_bits / 64)\<close> there are no false negatives
  (\<open>no_false_negatives\<close>).
\<close>

theorem C1_add_out_of_bounds:
  "BloomFilter_explicit 0xFFFFFFFFFFFFFFFF 1 =
     Inr \<lparr>bits' = [], num_bits' = 0xFFFFFFFFFFFFFFFF, num_hashes' = 1\<rparr> \<and>
   num_bits' \<lparr>bits' = [], num_bits' = 0xFFFFFFFFFFFFFFFF, num_hashes' = 1\<rparr> \<noteq> 0 \<and>
   num_hashes' \<lparr>bits' = [], num_bits' = 0xFFFFFFFFFFFFFFFF, num_hashes' = 1\<rparr> \<noteq> 0 \<and>
   add XXH64 \<lparr>bits' = [], num_bits' = 0xFFFFFFFFFFFFFFFF, num_hashes' = 1\<rparr> x =
     Inl undefined_behaviour"
  by (simp add: BloomFilter_explicit_def initialize_bits_def add_def add_loop.simps Let_def)



text \<open>
  C3 (monotonicity). Whatever the filter, a sequence of \<open>add\<close> calls that returns
  leaves \<open>num_bits\<close>, \<open>num_hashes\<close> and the number of words unchanged, keeps every
  bit that was 1 at 1, and keeps \<open>might_contain x\<close> true for every \<open>x\<close> for which it
  was true. On a filter that satisfies the data model's invariant every sequence of
  \<open>add\<close> calls returns.
\<close>

theorem C3_monotonicity:
  "(\<forall>f'. adds XXH64 f ys = Inr f' \<longrightarrow>
      num_bits' f' = num_bits' f \<and> num_hashes' f' = num_hashes' f \<and>
      length (bits' f') = length (bits' f) \<and>
      (\<forall>j n. bit (bits' f ! j) n \<longrightarrow> bit (bits' f' ! j) n) \<and>
      (\<forall>x. might_contain XXH64 f x = Inr True \<longrightarrow> might_contain XXH64 f' x = Inr True)) \<and>
   (filter_inv f \<longrightarrow> (\<exists>f'. adds XXH64 f ys = Inr f'))"
  using adds_partial [of XXH64 f ys] filter_inv_adds [of f XXH64 ys] by blast

theorem C3_monotonicity_witness:
  "filter_inv \<lparr>bits' = [9223372311732682752, 8589934592], num_bits' = 100, num_hashes' = 3\<rparr> \<and>
   might_contain sample_hash
     \<lparr>bits' = [9223372311732682752, 8589934592], num_bits' = 100, num_hashes' = 3\<rparr>
     [0x61, 0x62, 0x63] = Inr True \<and>
   bit ([9223372311732682752, 8589934592 :: u64] ! 1) 33 \<and>
   adds sample_hash
     \<lparr>bits' = [9223372311732682752, 8589934592], num_bits' = 100, num_hashes' = 3\<rparr>
     [[0x78], []] =
     Inr \<lparr>bits' = [9224498246536134656, 8657043584], num_bits' = 100, num_hashes' = 3\<rparr> \<and>
   bit ([9224498246536134656, 8657043584 :: u64] ! 1) 33 \<and>
   might_contain sample_hash
     \<lparr>bits' = [9224498246536134656, 8657043584], num_bits' = 100, num_hashes' = 3\<rparr>
     [0x61, 0x62, 0x63] = Inr True"
proof -
  let ?F1 = "\<lparr>bits' = [9223372311732682752, 8589934592], num_bits' = 100, num_hashes' = 3\<rparr>"
  let ?F2 = "\<lparr>bits' = [9224498246536134656, 8657043584], num_bits' = 100, num_hashes' = 3\<rparr>"
  let ?abc = "[0x61, 0x62, 0x63] :: bytes"
  have inv: "filter_inv ?F1"
    by (simp add: filter_inv_def)
  have before: "might_contain sample_hash ?F1 ?abc = Inr True"
    by (simp add: might_contain_def might_contain_loop.simps sample_hash_def
        SEED1_def SEED2_def Let_def)
  have set33: "bit (bits' ?F1 ! 1) 33"
    by (simp add: bit_iff_odd)
  have more: "adds sample_hash ?F1 [[0x78], []] = Inr ?F2"
    by (simp add: add_def add_loop.simps sample_hash_def SEED1_def SEED2_def Let_def)
  from C3_monotonicity [of sample_hash ?F1 "[[0x78], []]"] more
  have keep: "\<forall>j n. bit (bits' ?F1 ! j) n \<longrightarrow> bit (bits' ?F2 ! j) n"
    and still: "\<forall>x. might_contain sample_hash ?F1 x = Inr True \<longrightarrow>
      might_contain sample_hash ?F2 x = Inr True"
    by blast+
  from keep set33 have "bit (bits' ?F2 ! 1) 33"
    by blast
  moreover from still before have "might_contain sample_hash ?F2 ?abc = Inr True"
    by blast
  ultimately show ?thesis
    using inv before set33 more by simp
qed

text \<open>
  C4 (canonical index sequence). With \<open>h1 = XXH64 data SEED1\<close> and
  \<open>h2 = XXH64 data SEED2\<close>, on a filter with \<open>num_bits \<ge> 1\<close> and one word for each
  started block of 64 bits, \<open>add\<close> sets exactly the bits at the positions
  \<open>(h1 + i * h2) mod num_bits\<close>, \<open>i = 0, \<dots>, num_hashes - 1\<close>, in this order, and
  \<open>might_contain\<close> answers whether all of these positions are set; the sum and product
  are taken modulo \<open>2 ^ 64\<close>, and every position is below \<open>num_bits\<close>.
\<close>

theorem C4_canonical_index_sequence:
  assumes "num_bits' f \<noteq> 0" and "length (bits' f) = (unat (num_bits' f) + 63) div 64"
  shows "add XXH64 f data =
      Inr (f\<lparr>bits' := fold set_bit_at (probe_positions XXH64 f data) (bits' f)\<rparr>) \<and>
    might_contain XXH64 f data =
      Inr (list_all (test_bit_at (bits' f)) (probe_positions XXH64 f data)) \<and>
    length (probe_positions XXH64 f data) = unat (num_hashes' f) \<and>
    (\<forall>i < unat (num_hashes' f).
       probe_positions XXH64 f data ! i =
         (XXH64 data SEED1 + word_of_nat i * XXH64 data SEED2) mod num_bits' f \<and>
       unat (probe_positions XXH64 f data ! i) =
         ((unat (XXH64 data SEED1) + i * unat (XXH64 data SEED2)) mod 2 ^ 64)
           mod unat (num_bits' f) \<and>
       probe_positions XXH64 f data ! i < num_bits' f)"
proof -
  have nth: "probe_positions XXH64 f data ! i =
      (XXH64 data SEED1 + word_of_nat i * XXH64 data SEED2) mod num_bits' f"
    if "i < unat (num_hashes' f)" for i
    using that by (simp add: probe_positions_def index_seq_def)
  have "length (probe_positions XXH64 f data) = unat (num_hashes' f)"
    by (simp add: probe_positions_def index_seq_def)
  moreover have "\<forall>i < unat (num_hashes' f).
       probe_positions XXH64 f data ! i =
         (XXH64 data SEED1 + word_of_nat i * XXH64 data SEED2) mod num_bits' f \<and>
       unat (probe_positions XXH64 f data ! i) =
         ((unat (XXH64 data SEED1) + i * unat (XXH64 data SEED2)) mod 2 ^ 64)
           mod unat (num_bits' f) \<and>
       probe_positions XXH64 f data ! i < num_bits' f"
    using assms(1) by (simp add: nth unat_index_seq_nth index_in_range)
  ultimately show ?thesis
    using add_fold [OF assms] might_contain_all [OF assms] by blast
qed

theorem C4_canonical_index_sequence_witness:
  "num_bits' \<lparr>bits' = [0, 0], num_bits' = 100, num_hashes' = 3\<rparr> \<noteq> 0 \<and>
   length (bits' \<lparr>bits' = [0, 0], num_bits' = 100, num_hashes' = 3\<rparr>) = (unat (100 :: u64) + 63) div 64 \<and>
   probe_positions sample_hash \<lparr>bits' = [0, 0], num_bits' = 100, num_hashes' = 3\<rparr>
     [0x61, 0x62, 0x63] = [63, 38, 97] \<and>
   add sample_hash \<lparr>bits' = [0, 0], num_bits' = 100, num_hashes' = 3\<rparr> [0x61, 0x62, 0x63] =
     Inr \<lparr>bits' = fold set_bit_at [63, 38, 97] [0, 0], num_bits' = 100, num_hashes' = 3\<rparr> \<and>
   might_contain sample_hash \<lparr>bits' = [0, 0], num_bits' = 100, num_hashes' = 3\<rparr>
     [0x61, 0x62, 0x63] = Inr (list_all (test_bit_at [0, 0]) [63, 38, 97])"
proof -
  let ?F0 = "\<lparr>bits' = [0, 0], num_bits' = 100, num_hashes' = 3\<rparr>"
  let ?abc = "[0x61, 0x62, 0x63] :: bytes"
  have a: "num_bits' ?F0 \<noteq> 0" and b: "length (bits' ?F0) = (unat (num_bits' ?F0) + 63) div 64"
    by simp_all
  have c: "probe_positions sample_hash ?F0 ?abc = [63, 38, 97]"
    by (simp add: probe_positions_def index_seq_def sample_hash_def SEED1_def SEED2_def
        upt_conv_Cons)
  from C4_canonical_index_sequence [OF a b, of sample_hash ?abc] c show ?thesis
    by simp
qed

text \<open>
  C5 (the two schemes are not interchangeable). Whatever the hash function and the
  item, on the filter that the explicit constructor builds for \<open>num_bits = 4\<close> and
  \<open>num_hashes = 4\<close> the simple recurrence of \<^verbatim>\<open>src/bloom_filter.cpp\<close> and the
  enhanced recurrence of \<^verbatim>\<open>src/src/bloomfilter/bloom_filter.cpp\<close> give different
  sets of bit indices, and the two \<open>add\<close> implementations return different filters.
\<close>

theorem C5_schemes_not_interchangeable:
  "BloomFilter_explicit 4 4 = Inr \<lparr>bits' = [0], num_bits' = 4, num_hashes' = 4\<rparr> \<and>
   set (index_seq (XXH64 data SEED1) (XXH64 data SEED2) 4 4) \<noteq>
     set (enhanced_index_seq (XXH64 data SEED1) (XXH64 data SEED2) 4 4) \<and>
   add XXH64 \<lparr>bits' = [0], num_bits' = 4, num_hashes' = 4\<rparr> data =
     Inr \<lparr>bits' = fold set_bit_at (index_seq (XXH64 data SEED1) (XXH64 data SEED2) 4 4) [0],
       num_bits' = 4, num_hashes' = 4\<rparr> \<and>
   add_enhanced XXH64 \<lparr>bits' = [0], num_bits' = 4, num_hashes' = 4\<rparr> data =
     Inr \<lparr>bits' = fold set_bit_at
         (enhanced_index_seq (XXH64 data SEED1) (XXH64 data SEED2) 4 4) [0],
       num_bits' = 4, num_hashes' = 4\<rparr> \<and>
   add XXH64 \<lparr>bits' = [0], num_bits' = 4, num_hashes' = 4\<rparr> data \<noteq>
     add_enhanced XXH64 \<lparr>bits' = [0], num_bits' = 4, num_hashes' = 4\<rparr> data"
proof -
  let ?F = "\<lparr>bits' = [0], num_bits' = 4, num_hashes' = 4\<rparr>"
  let ?S = "index_seq (XXH64 data SEED1) (XXH64 data SEED2) 4 4"
  let ?E = "enhanced_index_seq (XXH64 data SEED1) (XXH64 data SEED2) 4 4"
  have made: "BloomFilter_explicit 4 4 = Inr ?F"
    by (simp add: BloomFilter_explicit_def initialize_bits_def)
  have nz: "num_bits' ?F \<noteq> 0" and len: "length (bits' ?F) = (unat (num_bits' ?F) + 63) div 64"
    by simp_all
  have simple: "add XXH64 ?F data = Inr (?F\<lparr>bits' := fold set_bit_at ?S [0]\<rparr>)"
    using add_fold [OF nz len, of XXH64 data] by (simp add: probe_positions_def)
  have enhanced: "add_enhanced XXH64 ?F data = Inr (?F\<lparr>bits' := fold set_bit_at ?E [0]\<rparr>)"
    using add_enhanced_fold [OF nz len, of XXH64 data] by simp
  from index_sets_differ_4_4 obtain x where
    x: "x < 4" "(x \<in> set ?S) \<noteq> (x \<in> set ?E)"
    by blast
  then have sets: "set ?S \<noteq> set ?E"
    by blast
  have block0: "unat (y mod 4 div 64) = 0" for y :: u64
    using block_in_bounds [of 4 y] by simp
  have inS: "\<forall>idx \<in> set ?S. unat (idx div 64) < length [0 :: u64]"
    by (simp add: simple_4_4 block0)
  have inE: "\<forall>idx \<in> set ?E. unat (idx div 64) < length [0 :: u64]"
    by (simp add: enhanced_4_4 block0)
  from x(1) have "unat x < 4"
    by (simp add: word_less_nat_alt)
  then have "unat (x div 64) = 0"
    by (simp add: unat_div)
  then have clear: "\<not> test_bit_at [0] x"
    by (simp add: test_bit_at_def)
  have "fold set_bit_at ?S [0] \<noteq> fold set_bit_at ?E [0]"
    using member_iff_of_equal_folds [OF inS inE _ clear] x(2) by blast
  with simple enhanced have "add XXH64 ?F data \<noteq> add_enhanced XXH64 ?F data"
    by simp
  with made sets simple enhanced show ?thesis
    by simp
qed




text \<open>
  C7 (invalid parameters). A NaN rate is outside the open interval \<open>(0, 1)\<close>, but both
  comparisons of the guard \<^verbatim>\<open>false_positive_rate <= 0.0 || false_positive_rate >= 1.0\<close>
  are false on it: whatever the floating-point expressions of
  \<^verbatim>\<open>calculate_optimal_params\<close> yield, the optimal constructor called with 1000 items
  and a NaN rate does not end with \<open>invalid_argument\<close>. For every other rate, and for
  the explicit constructor, \<open>optimal_invalid_argument_iff\<close>, \<open>double_rate_cases\<close> and
  \<open>explicit_invalid_argument_iff\<close> give the claim.
\<close>

theorem C7_nan_rate_not_rejected:
  "BloomFilter_optimal m_candidate_fp k_candidate_fp 1000 NaN \<noteq> Inl invalid_argument"
  by (simp add: BloomFilter_optimal_def double_ge_def calculate_optimal_params_def Let_def
      split: sum.splits option.splits)

text \<open>
  C8 (state corruption on restore). For \<open>num_bits = 2 ^ 64 - 1\<close> the sum
  \<^verbatim>\<open>num_bits_ + 63\<close> wraps to 62 and \<^verbatim>\<open>expected_blocks\<close> is 0: the restore
  constructor accepts the empty word vector, although \<open>ceil (num_bits / 64)\<close> is
  \<open>2 ^ 58\<close>. Up to \<open>num_bits = 2 ^ 64 - 64\<close> the claim holds
  (\<open>restore_state_corruption_iff\<close>).
\<close>

theorem C8_restore_accepts_wrong_length:
  "BloomFilter_restore 0xFFFFFFFFFFFFFFFF 1 [] =
     Inr \<lparr>bits' = [], num_bits' = 0xFFFFFFFFFFFFFFFF, num_hashes' = 1\<rparr> \<and>
   length ([] :: u64 list) \<noteq> (unat (0xFFFFFFFFFFFFFFFF :: u64) + 63) div 64 \<and>
   (unat (0xFFFFFFFFFFFFFFFF :: u64) + 63) div 64 = 288230376151711744"
  by (simp add: BloomFilter_restore_def)

text \<open>
  C9 (in-bounds bit access). On a filter with \<open>num_bits \<ge> 1\<close> whose word vector has
  length \<open>ceil (num_bits / 64)\<close>, every bit index the loops compute is below
  \<open>num_bits\<close>, its word index is below the length of the word vector, and neither
  \<open>add\<close> nor \<open>might_contain\<close> reaches an access out of bounds: both return.
\<close>

theorem C9_in_bounds_bit_access:
  assumes "num_bits' f \<noteq> 0" and "length (bits' f) = (unat (num_bits' f) + 63) div 64"
  shows "(\<forall>i. (XXH64 data SEED1 + i * XXH64 data SEED2) mod num_bits' f < num_bits' f \<and>
        unat ((XXH64 data SEED1 + i * XXH64 data SEED2) mod num_bits' f div 64)
          < length (bits' f)) \<and>
    (\<exists>f'. add XXH64 f data = Inr f') \<and>
    (\<exists>b. might_contain XXH64 f data = Inr b)"
  using assms add_fold [OF assms, of XXH64 data] might_contain_all [OF assms, of XXH64 data]
  by (simp add: index_in_range block_in_bounds)

theorem C9_in_bounds_bit_access_witness:
  "num_bits' \<lparr>bits' = [0, 0], num_bits' = 100, num_hashes' = 3\<rparr> \<noteq> 0 \<and>
   length (bits' \<lparr>bits' = [0, 0], num_bits' = 100, num_hashes' = 3\<rparr>) =
     (unat (num_bits' \<lparr>bits' = [0, 0], num_bits' = 100, num_hashes' = 3\<rparr>) + 63) div 64 \<and>
   (sample_hash [0x78] SEED1 + 2 * sample_hash [0x78] SEED2) mod 100 = 71 \<and>
   (\<forall>i. (sample_hash [0x78] SEED1 + i * sample_hash [0x78] SEED2) mod 100 < 100 \<and>
      unat ((sample_hash [0x78] SEED1 + i * sample_hash [0x78] SEED2) mod 100 div 64) < 2) \<and>
   (\<exists>f'. add sample_hash \<lparr>bits' = [0, 0], num_bits' = 100, num_hashes' = 3\<rparr> [0x78] = Inr f') \<and>
   (\<exists>b. might_contain sample_hash \<lparr>bits' = [0, 0], num_bits' = 100, num_hashes' = 3\<rparr> [0x78] = Inr b)"
proof -
  let ?F0 = "\<lparr>bits' = [0, 0], num_bits' = 100, num_hashes' = 3\<rparr>"
  have a: "num_bits' ?F0 \<noteq> 0" and b: "length (bits' ?F0) = (unat (num_bits' ?F0) + 63) div 64"
    by simp_all
  have c: "(sample_hash [0x78] SEED1 + 2 * sample_hash [0x78] SEED2) mod 100 = 71"
    by (simp add: sample_hash_def SEED1_def SEED2_def)
  have two: "length (bits' ?F0) = 2" and hundred: "num_bits' ?F0 = 100"
    by simp_all
  from C9_in_bounds_bit_access [OF a b, of sample_hash "[0x78]"] a b c show ?thesis
    unfolding two hundred by blast
qed

text \<open>
  C10 (a fresh filter is empty). For \<open>num_bits = 2 ^ 64 - 1\<close> the explicit constructor
  succeeds with no word at all, since \<^verbatim>\<open>(num_bits_ + 63) / 64\<close> wraps to 0, and
  \<open>might_contain\<close> on that fresh filter reads \<^verbatim>\<open>bits_[block_index]\<close> out of bounds
  instead of returning \<open>false\<close>. Up to \<open>num_bits = 2 ^ 64 - 64\<close> a fresh filter
  answers \<open>false\<close> for every byte sequence (\<open>fresh_filter_empty\<close>).
\<close>

theorem C10_fresh_filter_read_out_of_bounds:
  "BloomFilter_explicit 0xFFFFFFFFFFFFFFFF 1 =
     Inr \<lparr>bits' = [], num_bits' = 0xFFFFFFFFFFFFFFFF, num_hashes' = 1\<rparr> \<and>
   might_contain XXH64 \<lparr>bits' = [], num_bits' = 0xFFFFFFFFFFFFFFFF, num_hashes' = 1\<rparr> x =
     Inl undefined_behaviour"
  by (simp add: BloomFilter_explicit_def initialize_bits_def might_contain_def
      might_contain_loop.simps Let_def)

end
